theory Spec2Isabelle
  imports Main
begin

section \<open>The CSS selector builder of \<open>06-objects-tasks.js\<close>\<close>

text \<open>
  The builder is one JavaScript object literal, \<open>cssSelectorBuilder\<close>, with two data
  fields (\<open>res\<close>, a string, and \<open>bits\<close>, a reference to an array of six booleans) and
  ten methods. The part-appending methods copy the receiver with an object spread, so
  every object that the interface hands out carries the same methods; \<open>combine\<close> and
  \<open>stringify\<close> assign to \<open>this.res\<close>. The model therefore keeps an explicit store:
  objects and arrays live at addresses, a method takes the address of its receiver, and
  a thrown \<open>Error\<close> is a result value that leaves the store as it was at the throw.
\<close>

subsection \<open>Store, errors, sequencing\<close>

type_synonym addr = nat

record selector =
  res :: string
  bits :: addr

record heap =
  objs :: "selector list"
  arrs :: "bool list list"

text \<open>
  The two \<open>throw new Error(...)\<close> sites differ only in their message; the constructor
  names follow the rule each message states.
\<close>

datatype error = DuplicatePartError | OrderingError

type_synonym 'a prog = "heap \<Rightarrow> (error + 'a) \<times> heap"

definition ret :: "'a \<Rightarrow> 'a prog" where
  "ret x h = (Inr x, h)"

definition throw :: "error \<Rightarrow> 'a prog" where
  "throw e h = (Inl e, h)"

definition andThen :: "'a prog \<Rightarrow> ('a \<Rightarrow> 'b prog) \<Rightarrow> 'b prog" where
  "andThen m f h = (case m h of (Inl e, h') \<Rightarrow> (Inl e, h') | (Inr x, h') \<Rightarrow> f x h')"

subsection \<open>Field and array access\<close>

definition get_res :: "addr \<Rightarrow> heap \<Rightarrow> string" where
  "get_res a h = res (objs h ! a)"

definition set_res :: "addr \<Rightarrow> string \<Rightarrow> unit prog" where
  "set_res a s h = (Inr (), h\<lparr>objs := (objs h)[a := (objs h ! a)\<lparr>res := s\<rparr>]\<rparr>)"

text \<open>The array that the \<open>bits\<close> field of the object at \<open>a\<close> refers to.\<close>

definition flags :: "heap \<Rightarrow> addr \<Rightarrow> bool list" where
  "flags h a = arrs h ! bits (objs h ! a)"

text \<open>
  Reading a JavaScript array past its end gives \<open>undefined\<close>, which an \<open>if\<close> takes for
  false; writing past its end extends the array, the holes reading as \<open>undefined\<close>.
\<close>

definition js_index :: "bool list \<Rightarrow> nat \<Rightarrow> bool" where
  "js_index xs i = (if i < length xs then xs ! i else False)"

definition js_assign :: "bool list \<Rightarrow> nat \<Rightarrow> bool \<Rightarrow> bool list" where
  "js_assign xs i v =
     (if i < length xs then xs[i := v] else xs @ replicate (i - length xs) False @ [v])"

subsection \<open>The methods\<close>

definition checkCallOnce :: "addr \<Rightarrow> nat \<Rightarrow> unit prog" where
  "checkCallOnce this b h =
     (if js_index (flags h this) b then throw DuplicatePartError h else ret () h)"

text \<open>The \<open>for\<close> loop of \<open>checkOrder\<close>, from index \<open>i\<close> on.\<close>

function checkOrder_loop :: "addr \<Rightarrow> nat \<Rightarrow> unit prog" where
  "checkOrder_loop this i h =
     (if i < length (flags h this)
      then (if flags h this ! i then throw OrderingError h
            else checkOrder_loop this (i + 1) h)
      else ret () h)"
  by pat_completeness auto
termination
  by (relation "measure (\<lambda>(this, i, h). length (flags h this) - i)") auto

definition checkOrder :: "addr \<Rightarrow> nat \<Rightarrow> unit prog" where
  "checkOrder this b = checkOrder_loop this (b + 1)"

text \<open>
  \<open>createNewObj\<close>, statement by statement: the spread allocates an object with the
  fields of \<open>obj\<close> (so its \<open>bits\<close> still refers to the array of \<open>obj\<close>), \<open>slice\<close>
  allocates a copy of that array, the copy is stored in the new object's \<open>bits\<close>, and
  the array the new object now refers to is written at the index \<open>b\<close> (the
  parameter \<open>bit\<close> of the source).
\<close>

definition createNewObj :: "addr \<Rightarrow> nat \<Rightarrow> addr prog" where
  "createNewObj obj b h =
     (let newObj = length (objs h);
          h1 = h\<lparr>objs := objs h @ [objs h ! obj]\<rparr>;
          copy = length (arrs h1);
          h2 = h1\<lparr>arrs := arrs h1 @ [arrs h1 ! bits (objs h1 ! obj)]\<rparr>;
          h3 = h2\<lparr>objs := (objs h2)[newObj := (objs h2 ! newObj)\<lparr>bits := copy\<rparr>]\<rparr>;
          target = bits (objs h3 ! newObj);
          h4 = h3\<lparr>arrs := (arrs h3)[target := js_assign (arrs h3 ! target) b True]\<rparr>
      in (Inr newObj, h4))"

text \<open>\<open>obj.res += s\<close>\<close>

definition append_res :: "addr \<Rightarrow> string \<Rightarrow> unit prog" where
  "append_res obj s h = set_res obj (get_res obj h @ s) h"

definition element :: "addr \<Rightarrow> string \<Rightarrow> addr prog" where
  "element this v =
     andThen (checkCallOnce this 0) (\<lambda>_.
     andThen (checkOrder this 0) (\<lambda>_.
     andThen (createNewObj this 0) (\<lambda>obj.
     andThen (append_res obj v) (\<lambda>_.
     ret obj))))"

definition id_sel :: "addr \<Rightarrow> string \<Rightarrow> addr prog" where
  "id_sel this v =
     andThen (checkCallOnce this 1) (\<lambda>_.
     andThen (checkOrder this 1) (\<lambda>_.
     andThen (createNewObj this 1) (\<lambda>obj.
     andThen (append_res obj (''#'' @ v)) (\<lambda>_.
     ret obj))))"

definition class_sel :: "addr \<Rightarrow> string \<Rightarrow> addr prog" where
  "class_sel this v =
     andThen (checkOrder this 2) (\<lambda>_.
     andThen (createNewObj this 2) (\<lambda>obj.
     andThen (append_res obj (''.'' @ v)) (\<lambda>_.
     ret obj)))"

definition attr :: "addr \<Rightarrow> string \<Rightarrow> addr prog" where
  "attr this v =
     andThen (checkOrder this 3) (\<lambda>_.
     andThen (createNewObj this 3) (\<lambda>obj.
     andThen (append_res obj (''['' @ v @ '']'')) (\<lambda>_.
     ret obj)))"

definition pseudoClass :: "addr \<Rightarrow> string \<Rightarrow> addr prog" where
  "pseudoClass this v =
     andThen (checkOrder this 4) (\<lambda>_.
     andThen (createNewObj this 4) (\<lambda>obj.
     andThen (append_res obj ('':'' @ v)) (\<lambda>_.
     ret obj)))"

definition pseudoElement :: "addr \<Rightarrow> string \<Rightarrow> addr prog" where
  "pseudoElement this v =
     andThen (checkCallOnce this 5) (\<lambda>_.
     andThen (checkOrder this 5) (\<lambda>_.
     andThen (createNewObj this 5) (\<lambda>obj.
     andThen (append_res obj (''::'' @ v)) (\<lambda>_.
     ret obj))))"

definition stringify :: "addr \<Rightarrow> string prog" where
  "stringify this h = (let str = get_res this h in andThen (set_res this '''') (\<lambda>_. ret str) h)"

definition combine :: "addr \<Rightarrow> addr \<Rightarrow> string \<Rightarrow> addr \<Rightarrow> addr prog" where
  "combine this selector1 combinator selector2 =
     andThen (stringify selector1) (\<lambda>temp1.
     andThen (stringify selector2) (\<lambda>temp2.
     andThen (set_res this (temp1 @ '' '' @ combinator @ '' '' @ temp2)) (\<lambda>_.
     ret this)))"

text \<open>
  The object literal itself: the store right after the module is loaded holds the
  builder at address 0, with \<open>res: ''\<close> and \<open>bits: new Array(6).fill(false)\<close>.
\<close>

definition cssSelectorBuilder :: addr where
  "cssSelectorBuilder = 0"

definition init_heap :: heap where
  "init_heap = \<lparr>objs = [\<lparr>res = '''', bits = 0\<rparr>], arrs = [replicate 6 False]\<rparr>"

subsection \<open>Calls by category, chains of calls\<close>

text \<open>
  The six part-appending methods, named by the category they append, so that a
  statement can range over all of them. \<open>rank\<close> is the index a method passes to the
  checks and to \<open>createNewObj\<close>; \<open>once\<close> holds of the methods that call
  \<open>checkCallOnce\<close>.
\<close>

datatype part = Element | Id | Class | Attribute | PseudoClass | PseudoElement

fun call :: "part \<Rightarrow> addr \<Rightarrow> string \<Rightarrow> addr prog" where
  "call Element this v h = element this v h"
| "call Id this v h = id_sel this v h"
| "call Class this v h = class_sel this v h"
| "call Attribute this v h = attr this v h"
| "call PseudoClass this v h = pseudoClass this v h"
| "call PseudoElement this v h = pseudoElement this v h"

fun rank :: "part \<Rightarrow> nat" where
  "rank Element = 0"
| "rank Id = 1"
| "rank Class = 2"
| "rank Attribute = 3"
| "rank PseudoClass = 4"
| "rank PseudoElement = 5"

fun once :: "part \<Rightarrow> bool" where
  "once Element = True"
| "once Id = True"
| "once PseudoElement = True"
| "once _ = False"

text \<open>
  A chain \<open>this.k\<^sub>1(v\<^sub>1).k\<^sub>2(v\<^sub>2)...\<close>: each call has the object returned by the call
  before it as receiver, and the first throw ends the chain.
\<close>

fun chain :: "addr \<Rightarrow> (part \<times> string) list \<Rightarrow> addr prog" where
  "chain this [] h = ret this h"
| "chain this ((k, v) # cs) h = andThen (call k this v) (\<lambda>obj. chain obj cs) h"

subsection \<open>The specification's vocabulary\<close>

text \<open>
  The fragments as the specification lists them: \<open>value\<close>, \<open>#value\<close>, \<open>.value\<close>,
  \<open>[value]\<close>, \<open>:value\<close>, \<open>::value\<close>.
\<close>

fun spec_fragment :: "part \<times> string \<Rightarrow> string" where
  "spec_fragment (Element, v) = v"
| "spec_fragment (Id, v) = ''#'' @ v"
| "spec_fragment (Class, v) = ''.'' @ v"
| "spec_fragment (Attribute, v) = ''['' @ v @ '']''"
| "spec_fragment (PseudoClass, v) = '':'' @ v"
| "spec_fragment (PseudoElement, v) = ''::'' @ v"

text \<open>
  The specification's valid orderings: categories in non-decreasing order, with
  \<open>element\<close>, \<open>id\<close> and \<open>pseudoElement\<close> at most once each.
\<close>

definition spec_valid_order :: "(part \<times> string) list \<Rightarrow> bool" where
  "spec_valid_order cs \<longleftrightarrow>
     sorted (map (rank \<circ> fst) cs) \<and>
     count_list (map fst cs) Element \<le> 1 \<and>
     count_list (map fst cs) Id \<le> 1 \<and>
     count_list (map fst cs) PseudoElement \<le> 1"

subsection \<open>Well-formed references, reachable stores\<close>

text \<open>
  JavaScript has no dangling references: an object in hand is in the store, and so is
  the array its \<open>bits\<close> field refers to. Every array the builder allocates has six
  entries.
\<close>

definition ok :: "heap \<Rightarrow> addr \<Rightarrow> bool" where
  "ok h a \<longleftrightarrow>
     a < length (objs h) \<and> bits (objs h ! a) < length (arrs h) \<and> length (flags h a) = 6"

text \<open>A fresh builder state: no text yet and no flag set.\<close>

definition fresh :: "heap \<Rightarrow> addr \<Rightarrow> bool" where
  "fresh h a \<longleftrightarrow> ok h a \<and> get_res a h = '''' \<and> flags h a = replicate 6 False"

text \<open>
  The stores a client can produce through the public methods, starting from the
  loaded module and calling them on objects it holds.
\<close>

inductive reachable :: "heap \<Rightarrow> bool" where
  r_init: "reachable init_heap"
| r_call: "reachable h \<Longrightarrow> this < length (objs h) \<Longrightarrow> reachable (snd (call k this v h))"
| r_stringify: "reachable h \<Longrightarrow> this < length (objs h) \<Longrightarrow> reachable (snd (stringify this h))"
| r_combine: "reachable h \<Longrightarrow> this < length (objs h) \<Longrightarrow> s1 < length (objs h) \<Longrightarrow>
     s2 < length (objs h) \<Longrightarrow> reachable (snd (combine this s1 c s2 h))"

text \<open>
  The store after a successful call of category \<open>k\<close> on \<open>this\<close>: one more object,
  holding the receiver's text followed by the fragment, and one more array, the
  receiver's flags with the flag of \<open>k\<close> set.
\<close>

definition extend :: "heap \<Rightarrow> addr \<Rightarrow> part \<Rightarrow> string \<Rightarrow> heap" where
  "extend h this k v =
     h\<lparr>objs := objs h @ [\<lparr>res = get_res this h @ spec_fragment (k, v), bits = length (arrs h)\<rparr>],
       arrs := arrs h @ [(flags h this)[rank k := True]]\<rparr>"

subsection \<open>Notions used in the proofs\<close>

text \<open>The store after the assignment \<open>a.res = s\<close>.\<close>

definition put_res :: "addr \<Rightarrow> string \<Rightarrow> heap \<Rightarrow> heap" where
  "put_res a s h = snd (set_res a s h)"

text \<open>
  The flags \<open>bs\<close> of a state admit the calls \<open>cs\<close>: no set flag lies above a category
  still to come, nor on a category still to come whose method calls \<open>checkCallOnce\<close>.
\<close>

definition admits :: "bool list \<Rightarrow> (part \<times> string) list \<Rightarrow> bool" where
  "admits bs cs \<longleftrightarrow>
     (\<forall>c \<in> set cs. \<forall>j < 6. bs ! j \<longrightarrow> j \<le> rank (fst c) \<and> (once (fst c) \<longrightarrow> j \<noteq> rank (fst c)))"

definition single_use :: "(part \<times> string) list \<Rightarrow> bool" where
  "single_use cs \<longleftrightarrow> (\<forall>k. once k \<longrightarrow> count_list (map fst cs) k \<le> 1)"

text \<open>
  What every store reachable through the public methods satisfies: the builder is
  there, no reference dangles, and the array of the builder itself is never written.
\<close>

definition wf_heap :: "heap \<Rightarrow> bool" where
  "wf_heap h \<longleftrightarrow>
     0 < length (objs h) \<and> (\<forall>a < length (objs h). ok h a) \<and>
     flags h cssSelectorBuilder = replicate 6 False"

subsection \<open>Example stores\<close>

text \<open>
  Stores a client produces with a few calls on the loaded module; the objects they
  allocate get the addresses 1, 2, 3, ... in the order of the calls.
\<close>

definition one_element :: heap where
  "one_element = snd (element cssSelectorBuilder ''a'' init_heap)"

definition element_id :: heap where
  "element_id = snd (chain cssSelectorBuilder [(Element, ''a''), (Id, ''x'')] init_heap)"

definition one_class :: heap where
  "one_class = snd (class_sel cssSelectorBuilder ''c'' init_heap)"

definition two_elements :: heap where
  "two_elements = snd (element cssSelectorBuilder ''b'' one_element)"

definition three_elements :: heap where
  "three_elements = snd (element cssSelectorBuilder ''c'' two_elements)"

definition div_main_span :: heap where
  "div_main_span =
     snd (element cssSelectorBuilder ''span''
       (snd (chain cssSelectorBuilder [(Element, ''div''), (Id, ''main'')] init_heap)))"

definition all_parts :: "(part \<times> string) list" where
  "all_parts =
     [(Element, ''div''), (Id, ''main''), (Class, ''container''), (Class, ''editable''),
      (Attribute, ''href''), (PseudoClass, ''focus''), (PseudoElement, ''after'')]"

text \<open>
  The inner call of \<open>builder.combine(builder.element('a'), '+',
  builder.combine(builder.element('b'), '~', builder.element('c')))\<close>, the nesting
  the source's documentation comment shows.
\<close>

definition inner_combined :: heap where
  "inner_combined = snd (combine cssSelectorBuilder 2 ''~'' 3 three_elements)"

section \<open>What the methods compute\<close>

lemma checkOrder_loop_eq:
  "checkOrder_loop this i h =
     (if \<exists>j. i \<le> j \<and> j < length (flags h this) \<and> flags h this ! j
      then (Inl OrderingError, h) else (Inr (), h))"
proof (induction this i h rule: checkOrder_loop.induct)
  case (1 this i h)
  show ?case
  proof (cases "i < length (flags h this)")
    case False
    then show ?thesis by (subst checkOrder_loop.simps) (auto simp: ret_def)
  next
    case True
    show ?thesis
    proof (cases "flags h this ! i")
      case True
      with \<open>i < length (flags h this)\<close> show ?thesis
        by (subst checkOrder_loop.simps) (auto simp: throw_def)
    next
      case False
      have "(\<exists>j. i \<le> j \<and> j < length (flags h this) \<and> flags h this ! j) =
            (\<exists>j. i + 1 \<le> j \<and> j < length (flags h this) \<and> flags h this ! j)"
        using False by (metis Suc_eq_plus1 Suc_leI le_neq_implies_less add_leD1)
      with 1 True False show ?thesis
        by (subst checkOrder_loop.simps) simp
    qed
  qed
qed

lemma createNewObj_eq:
  assumes "obj < length (objs h)" "bits (objs h ! obj) < length (arrs h)"
  shows "createNewObj obj b h =
     (Inr (length (objs h)),
      h\<lparr>objs := objs h @ [\<lparr>res = res (objs h ! obj), bits = length (arrs h)\<rparr>],
        arrs := arrs h @ [js_assign (flags h obj) b True]\<rparr>)"
  using assms by (simp add: createNewObj_def Let_def flags_def nth_append)

lemma checkCallOnce_eq:
  "checkCallOnce this b h =
     (if b < length (flags h this) \<and> flags h this ! b then (Inl DuplicatePartError, h)
      else (Inr (), h))"
  by (simp add: checkCallOnce_def js_index_def throw_def ret_def)

lemma checkOrder_eq:
  "checkOrder this b h =
     (if \<exists>j. b < j \<and> j < length (flags h this) \<and> flags h this ! j
      then (Inl OrderingError, h) else (Inr (), h))"
proof -
  have "(\<exists>j. b + 1 \<le> j \<and> j < length (flags h this) \<and> flags h this ! j) =
        (\<exists>j. b < j \<and> j < length (flags h this) \<and> flags h this ! j)"
    by (metis Suc_eq_plus1 Suc_le_eq)
  then show ?thesis
    unfolding checkOrder_def checkOrder_loop_eq by simp
qed

lemma append_new_eq:
  "append_res (length (objs h)) s (h\<lparr>objs := objs h @ [x], arrs := ys\<rparr>) =
     (Inr (), h\<lparr>objs := objs h @ [x\<lparr>res := res x @ s\<rparr>], arrs := ys\<rparr>)"
  by (simp add: append_res_def set_res_def get_res_def)

lemma andThen_checkCallOnce:
  "andThen (checkCallOnce this b) (\<lambda>_. m) h =
     (if b < length (flags h this) \<and> flags h this ! b then (Inl DuplicatePartError, h) else m h)"
  by (simp add: andThen_def checkCallOnce_eq)

lemma append_body_eq:
  assumes "ok h this"
  shows "andThen (checkOrder this b) (\<lambda>_.
         andThen (createNewObj this b) (\<lambda>obj.
         andThen (append_res obj s) (\<lambda>_. ret obj))) h =
    (if \<exists>j. b < j \<and> j < 6 \<and> flags h this ! j then (Inl OrderingError, h)
     else (Inr (length (objs h)),
           h\<lparr>objs := objs h @ [\<lparr>res = get_res this h @ s, bits = length (arrs h)\<rparr>],
             arrs := arrs h @ [js_assign (flags h this) b True]\<rparr>))"
proof -
  from assms have a: "this < length (objs h)" "bits (objs h ! this) < length (arrs h)"
    and l: "length (flags h this) = 6"
    by (simp_all add: ok_def)
  show ?thesis
    by (auto simp: andThen_def checkOrder_eq l createNewObj_eq [OF a] append_new_eq ret_def
        get_res_def)
qed

lemma call_eq:
  assumes "ok h this"
  shows "call k this v h =
    (if once k \<and> flags h this ! rank k then (Inl DuplicatePartError, h)
     else if \<exists>j. rank k < j \<and> j < 6 \<and> flags h this ! j then (Inl OrderingError, h)
     else (Inr (length (objs h)), extend h this k v))"
proof -
  from assms have l: "length (flags h this) = 6"
    by (simp add: ok_def)
  show ?thesis
    by (cases k)
      (auto simp: element_def id_sel_def class_sel_def attr_def pseudoClass_def
        pseudoElement_def andThen_checkCallOnce append_body_eq [OF assms] l extend_def
        js_assign_def)
qed

section \<open>Assignments to \<open>res\<close>\<close>

lemma length_objs_put_res: "length (objs (put_res a s h)) = length (objs h)"
  by (simp add: put_res_def set_res_def)

lemma arrs_put_res: "arrs (put_res a s h) = arrs h"
  by (simp add: put_res_def set_res_def)

lemma bits_put_res: "a < length (objs h) \<Longrightarrow> bits (objs (put_res a s h) ! b) = bits (objs h ! b)"
  by (simp add: put_res_def set_res_def nth_list_update)

lemma flags_put_res: "a < length (objs h) \<Longrightarrow> flags (put_res a s h) b = flags h b"
  by (simp add: flags_def bits_put_res arrs_put_res)

lemma get_res_put_res:
  "a < length (objs h) \<Longrightarrow> get_res b (put_res a s h) = (if b = a then s else get_res b h)"
  by (simp add: put_res_def set_res_def get_res_def nth_list_update)

lemma ok_put_res: "a < length (objs h) \<Longrightarrow> ok (put_res a s h) b = ok h b"
  by (simp add: ok_def length_objs_put_res arrs_put_res bits_put_res flags_put_res)

lemma stringify_put: "stringify this h = (Inr (get_res this h), put_res this '''' h)"
  by (simp add: stringify_def andThen_def put_res_def set_res_def ret_def)

lemma combine_put:
  "combine this l c r h =
     (Inr this,
      put_res this (get_res l h @ '' '' @ c @ '' '' @ get_res r (put_res l '''' h))
        (put_res r '''' (put_res l '''' h)))"
  by (simp add: combine_def andThen_def stringify_put put_res_def set_res_def ret_def)

section \<open>The store after a successful call\<close>

lemma length_objs_extend: "length (objs (extend h this k v)) = Suc (length (objs h))"
  by (simp add: extend_def)

lemma flags_extend_new:
  "flags (extend h this k v) (length (objs h)) = (flags h this)[rank k := True]"
  by (simp add: extend_def flags_def)

lemma get_res_extend_new:
  "get_res (length (objs h)) (extend h this k v) = get_res this h @ spec_fragment (k, v)"
  by (simp add: extend_def get_res_def)

lemma ok_extend_new: "ok h this \<Longrightarrow> ok (extend h this k v) (length (objs h))"
  by (simp add: ok_def flags_extend_new length_objs_extend) (simp add: extend_def)

lemma get_res_extend_old:
  "a < length (objs h) \<Longrightarrow> get_res a (extend h this k v) = get_res a h"
  by (simp add: extend_def get_res_def nth_append)

lemma flags_extend_old: "ok h a \<Longrightarrow> flags (extend h this k v) a = flags h a"
  by (simp add: extend_def flags_def ok_def nth_append)

lemma ok_extend_old: "ok h a \<Longrightarrow> ok (extend h this k v) a"
  by (simp add: ok_def flags_extend_old) (simp add: extend_def nth_append)

lemma rank_less_6: "rank k < 6"
  by (cases k) simp_all

lemma rank_inj: "rank k = rank k' \<Longrightarrow> k = k'"
  by (cases k; cases k') simp_all

section \<open>Chains in category order\<close>

lemma admits_step:
  assumes len: "length bs = 6" and adm: "admits bs ((k, v) # cs)"
    and srt: "sorted (map (rank \<circ> fst) ((k, v) # cs))"
    and su: "single_use ((k, v) # cs)"
  shows "admits (bs[rank k := True]) cs"
  unfolding admits_def
proof (intro ballI allI impI)
  fix c j
  assume c: "c \<in> set cs" and j: "j < 6" and set: "bs[rank k := True] ! j"
  show "j \<le> rank (fst c) \<and> (once (fst c) \<longrightarrow> j \<noteq> rank (fst c))"
  proof (cases "j = rank k")
    case False
    with set have "bs ! j" by simp
    with adm c j show ?thesis by (simp add: admits_def)
  next
    case True
    from srt c have le: "rank k \<le> rank (fst c)" by auto
    have "fst c \<noteq> k" if "once (fst c)"
    proof
      assume eq: "fst c = k"
      with c have "k \<in> set (map fst cs)" by force
      then have "count_list (map fst cs) k \<noteq> 0" by (simp add: count_list_0_iff)
      moreover from su have "once k \<longrightarrow> count_list (map fst ((k, v) # cs)) k \<le> 1"
        unfolding single_use_def by blast
      ultimately show False using that eq by simp
    qed
    then have "once (fst c) \<longrightarrow> rank k \<noteq> rank (fst c)"
      using rank_inj by blast
    with le True show ?thesis by simp
  qed
qed

lemma single_use_tail:
  assumes "single_use (c # cs)"
  shows "single_use cs"
  unfolding single_use_def
proof (intro allI impI)
  fix k
  assume "once k"
  with assms have "count_list (map fst (c # cs)) k \<le> 1"
    by (simp add: single_use_def)
  then show "count_list (map fst cs) k \<le> 1"
    by (simp split: if_splits)
qed

lemma chain_admitted:
  assumes "ok h this" "admits (flags h this) cs" "sorted (map (rank \<circ> fst) cs)" "single_use cs"
  shows "\<exists>a h'. chain this cs h = (Inr a, h') \<and> ok h' a \<and>
           get_res a h' = get_res this h @ concat (map spec_fragment cs)"
  using assms
proof (induction cs arbitrary: this h)
  case Nil
  then show ?case by (simp add: ret_def)
next
  case (Cons c cs)
  obtain k v where c: "c = (k, v)" by (cases c)
  from Cons.prems(1) have len: "length (flags h this) = 6" by (simp add: ok_def)
  from Cons.prems(2) have no_dup: "\<not> (once k \<and> flags h this ! rank k)"
    using rank_less_6 [of k] by (auto simp: admits_def c)
  from Cons.prems(2) have no_ord: "\<not> (\<exists>j. rank k < j \<and> j < 6 \<and> flags h this ! j)"
    by (auto simp: admits_def c)
  let ?h = "extend h this k v" and ?a = "length (objs h)"
  from no_dup no_ord have step: "call k this v h = (Inr ?a, ?h)"
    by (simp add: call_eq [OF Cons.prems(1)])
  have ok': "ok ?h ?a" using Cons.prems(1) by (rule ok_extend_new)
  have "admits ((flags h this)[rank k := True]) cs"
    using len Cons.prems(2-4) unfolding c by (rule admits_step)
  then have "admits (flags ?h ?a) cs"
    by (simp add: flags_extend_new)
  moreover from Cons.prems(3) have "sorted (map (rank \<circ> fst) cs)" by (simp add: comp_def)
  moreover from Cons.prems(4) have "single_use cs" by (rule single_use_tail)
  ultimately obtain a h' where r: "chain ?a cs ?h = (Inr a, h')" "ok h' a"
      "get_res a h' = get_res ?a ?h @ concat (map spec_fragment cs)"
    using Cons.IH [OF ok'] by blast
  from step r show ?case
    by (simp add: c andThen_def get_res_extend_new)
qed

lemma spec_valid_order_single_use:
  assumes "spec_valid_order cs"
  shows "single_use cs"
  unfolding single_use_def
proof (intro allI impI)
  fix k
  assume "once k"
  with assms show "count_list (map fst cs) k \<le> 1"
    by (cases k) (simp_all add: spec_valid_order_def)
qed

section \<open>Reachable stores are well formed\<close>

lemma wf_init: "wf_heap init_heap"
  by (simp add: wf_heap_def init_heap_def ok_def flags_def cssSelectorBuilder_def)

lemma wf_put_res:
  assumes "wf_heap h" "a < length (objs h)"
  shows "wf_heap (put_res a s h)"
  using assms by (simp add: wf_heap_def length_objs_put_res ok_put_res flags_put_res)

lemma wf_extend:
  assumes "wf_heap h" "this < length (objs h)"
  shows "wf_heap (extend h this k v)"
proof -
  from assms have ok: "ok h this" and ok0: "ok h cssSelectorBuilder"
    by (simp_all add: wf_heap_def cssSelectorBuilder_def)
  have "ok (extend h this k v) a" if "a < Suc (length (objs h))" for a
  proof (cases "a = length (objs h)")
    case True
    with ok show ?thesis by (simp add: ok_extend_new)
  next
    case False
    with that assms(1) have "ok h a" by (simp add: wf_heap_def)
    then show ?thesis by (rule ok_extend_old)
  qed
  with assms(1) ok0 show ?thesis
    by (simp add: wf_heap_def length_objs_extend flags_extend_old)
qed

lemma wf_call:
  assumes "wf_heap h" "this < length (objs h)"
  shows "wf_heap (snd (call k this v h))"
proof -
  from assms have "ok h this" by (simp add: wf_heap_def)
  from call_eq [OF this, of k v] assms wf_extend [OF assms, of k v] show ?thesis
    by (simp split: if_splits)
qed

lemma reachable_wf: "reachable h \<Longrightarrow> wf_heap h"
proof (induction rule: reachable.induct)
  case r_init
  show ?case by (rule wf_init)
next
  case (r_call h this k v)
  then show ?case by (simp add: wf_call)
next
  case (r_stringify h this)
  then show ?case by (simp add: stringify_put wf_put_res)
next
  case (r_combine h this s1 s2 c)
  then show ?case
    by (simp add: combine_put wf_put_res length_objs_put_res)
qed

lemma reachable_ok: "reachable h \<Longrightarrow> a < length (objs h) \<Longrightarrow> ok h a"
  using reachable_wf [of h] by (simp add: wf_heap_def)

section \<open>The claims\<close>

subsection \<open>C1: chains in category order render the concatenated fragments\<close>

text \<open>
  C1. Start from a fresh builder state (empty text, no flag set) and apply
  part-appending calls in non-decreasing category order, \<open>element\<close>, \<open>id\<close> and
  \<open>pseudoElement\<close> at most once each. Then every call succeeds, and \<open>stringify\<close> on
  the last object returns the fragments \<open>value\<close>, \<open>#value\<close>, \<open>.value\<close>, \<open>[value]\<close>,
  \<open>:value\<close>, \<open>::value\<close> of the calls, concatenated in the order of the calls.
\<close>

theorem valid_chain_renders:
  assumes "fresh h b" and "spec_valid_order cs"
  shows "\<exists>a h'. chain b cs h = (Inr a, h') \<and>
           fst (stringify a h') = Inr (concat (map spec_fragment cs))"
proof -
  from assms(1) have ok: "ok h b" and e: "get_res b h = ''''" and f: "flags h b = replicate 6 False"
    by (simp_all add: fresh_def)
  have "admits (flags h b) cs" by (simp add: admits_def f)
  moreover from assms(2) have "sorted (map (rank \<circ> fst) cs)" by (simp add: spec_valid_order_def)
  moreover from assms(2) have "single_use cs" by (rule spec_valid_order_single_use)
  ultimately obtain a h' where "chain b cs h = (Inr a, h')"
      "get_res a h' = get_res b h @ concat (map spec_fragment cs)"
    using chain_admitted [OF ok] by blast
  with e show ?thesis by (simp add: stringify_put)
qed

text \<open>All six categories, with \<open>class\<close> twice, on the loaded module.\<close>

theorem valid_chain_renders_witness:
  "fresh init_heap cssSelectorBuilder \<and> spec_valid_order all_parts \<and>
   (\<exists>a h'. chain cssSelectorBuilder all_parts init_heap = (Inr a, h') \<and>
      fst (stringify a h') = Inr ''div#main.container.editable[href]:focus::after'')"
proof -
  have f: "fresh init_heap cssSelectorBuilder" by code_simp
  have v: "spec_valid_order all_parts" by code_simp
  have "concat (map spec_fragment all_parts) = ''div#main.container.editable[href]:focus::after''"
    by (simp add: all_parts_def)
  with f v valid_chain_renders [OF f v] show ?thesis by simp
qed

subsection \<open>C2: rendering twice\<close>

text \<open>
  C2, as amended. \<open>stringify\<close> returns the accumulated text of its receiver and
  assigns the empty string to the receiver's \<open>res\<close>, so a second \<open>stringify\<close> on the
  same object returns the empty string; the two results agree exactly when the text
  was empty to begin with.
\<close>

theorem stringify_twice:
  assumes "this < length (objs h)"
  shows "fst (stringify this h) = Inr (get_res this h) \<and>
         fst (stringify this (snd (stringify this h))) = Inr '''' \<and>
         (fst (stringify this h) = fst (stringify this (snd (stringify this h)))) =
           (get_res this h = '''')"
  using assms by (auto simp: stringify_put get_res_put_res)

theorem stringify_twice_witness:
  "1 < length (objs one_element) \<and>
   fst (stringify 1 one_element) = Inr ''a'' \<and>
   fst (stringify 1 (snd (stringify 1 one_element))) = Inr ''''"
proof -
  have l: "1 < length (objs one_element)" by code_simp
  have "get_res 1 one_element = ''a''" by code_simp
  with l stringify_twice [OF l] show ?thesis by simp
qed

text \<open>
  C2 as stated fails on \<open>builder.element('a')\<close>: the first \<open>stringify\<close> returns \<open>a\<close>,
  the second the empty string.
\<close>

theorem stringify_twice_counterexample:
  "fst (element cssSelectorBuilder ''a'' init_heap) = Inr 1 \<and>
   fst (stringify 1 one_element) = Inr ''a'' \<and>
   fst (stringify 1 (snd (stringify 1 one_element))) = Inr '''' \<and>
   fst (stringify 1 one_element) \<noteq> fst (stringify 1 (snd (stringify 1 one_element)))"
  by code_simp

subsection \<open>C3: the single-occurrence error\<close>

text \<open>
  C3. A part-appending call throws the single-occurrence error if and only if it is
  \<open>element\<close>, \<open>id\<close> or \<open>pseudoElement\<close> and the flag of that category is set in the
  receiver; \<open>class\<close>, \<open>attr\<close> and \<open>pseudoClass\<close> never throw it.
\<close>

theorem duplicate_error_iff:
  assumes "ok h this"
  shows "(fst (call k this v h) = Inl DuplicatePartError) =
         (k \<in> {Element, Id, PseudoElement} \<and> flags h this ! rank k)"
  using call_eq [OF assms, of k v] by (cases k) auto

text \<open>
  On \<open>builder.element('a')\<close>, a second \<open>element\<close> throws the error and \<open>class\<close>
  does not.
\<close>

theorem duplicate_error_iff_witness:
  "ok one_element 1 \<and> flags one_element 1 ! rank Element \<and>
   fst (call Element 1 ''b'' one_element) = Inl DuplicatePartError \<and>
   fst (call Class 1 ''c'' one_element) \<noteq> Inl DuplicatePartError"
proof -
  have a: "ok one_element 1"
    by code_simp
  have b: "flags one_element 1 ! rank Element"
    by code_simp
  from a b duplicate_error_iff [OF a, of Element "''b''"]
    duplicate_error_iff [OF a, of Class "''c''"]
  show ?thesis by simp
qed

subsection \<open>C4: the ordering error\<close>

text \<open>
  C4, as amended. A part-appending call throws the ordering error if and only if some
  category of strictly higher index has its flag set in the receiver and the call is
  not one that \<open>checkCallOnce\<close>, which runs first, already rejects. For \<open>class\<close>,
  \<open>attr\<close> and \<open>pseudoClass\<close> the first condition alone decides, whatever the
  category's own flag: repeating one of them does not throw.
\<close>

theorem ordering_error_iff:
  assumes "ok h this"
  shows "(fst (call k this v h) = Inl OrderingError) =
         (\<not> (k \<in> {Element, Id, PseudoElement} \<and> flags h this ! rank k) \<and>
          (\<exists>j. rank k < j \<and> j < 6 \<and> flags h this ! j))"
  using call_eq [OF assms, of k v] by (cases k) auto

text \<open>
  On \<open>builder.class('c')\<close>, \<open>id\<close> throws the ordering error and a second \<open>class\<close>
  does not.
\<close>

theorem ordering_error_iff_witness:
  "ok one_class 1 \<and> flags one_class 1 ! rank Class \<and>
   fst (call Id 1 ''x'' one_class) = Inl OrderingError \<and>
   fst (call Class 1 ''d'' one_class) \<noteq> Inl OrderingError"
proof -
  have a: "ok one_class 1" by code_simp
  have b: "flags one_class 1 ! rank Class" by code_simp
  have c: "rank Id < rank Class \<and> rank Class < 6" by simp
  have d: "\<not> flags one_class 1 ! rank Id" by code_simp
  have e: "\<not> (\<exists>j. rank Class < j \<and> j < 6 \<and> flags one_class 1 ! j)"
  proof
    assume "\<exists>j. rank Class < j \<and> j < 6 \<and> flags one_class 1 ! j"
    then obtain j where "2 < j" "j < 6" "flags one_class 1 ! j" by auto
    moreover have "flags one_class 1 = [False, False, True, False, False, False]" by code_simp
    moreover from \<open>2 < j\<close> \<open>j < 6\<close> have "j = 3 \<or> j = 4 \<or> j = 5" by arith
    ultimately show False by auto
  qed
  from a b c d e ordering_error_iff [OF a, of Id "''x''"] ordering_error_iff [OF a, of Class "''d''"]
  show ?thesis by auto
qed

text \<open>
  C4 as stated fails on \<open>builder.element('a').id('x')\<close>: the flag of \<open>id\<close>, above
  \<open>element\<close>, is set, and a second \<open>element\<close> throws the single-occurrence error, not
  the ordering error.
\<close>

theorem ordering_error_counterexample:
  "fst (chain cssSelectorBuilder [(Element, ''a''), (Id, ''x'')] init_heap) = Inr 2 \<and>
   rank Element < rank Id \<and> rank Id < 6 \<and> flags element_id 2 ! rank Id \<and>
   fst (call Element 2 ''b'' element_id) = Inl DuplicatePartError \<and>
   fst (call Element 2 ''b'' element_id) \<noteq> Inl OrderingError"
  by code_simp

subsection \<open>C5: the text of a combination\<close>

text \<open>
  C5, as amended. \<open>combine\<close> returns an object whose rendered text is the text of the
  left operand, a space, the combinator as given, a space, and the text of the right
  operand, provided the operands are two objects; when both operands are one object,
  the part after the second space is empty, since rendering the left operand has
  emptied it.
\<close>

theorem combine_text:
  assumes "this < length (objs h)" "l < length (objs h)" "r < length (objs h)"
  shows "fst (combine this l c r h) = Inr this \<and>
         fst (stringify this (snd (combine this l c r h))) =
           Inr (get_res l h @ '' '' @ c @ '' '' @ (if r = l then '''' else get_res r h))"
  using assms
  by (simp add: combine_put stringify_put get_res_put_res length_objs_put_res)

text \<open>
  The specification's example:
  \<open>combine(element('div').id('main'), '+', element('span'))\<close> renders as
  \<open>div#main + span\<close>.
\<close>

theorem combine_text_witness:
  "fst (chain cssSelectorBuilder [(Element, ''div''), (Id, ''main'')] init_heap) = Inr 2 \<and>
   fst (element cssSelectorBuilder ''span''
     (snd (chain cssSelectorBuilder [(Element, ''div''), (Id, ''main'')] init_heap))) = Inr 3 \<and>
   cssSelectorBuilder < length (objs div_main_span) \<and>
   2 < length (objs div_main_span) \<and> 3 < length (objs div_main_span) \<and>
   fst (stringify cssSelectorBuilder (snd (combine cssSelectorBuilder 2 ''+'' 3 div_main_span))) =
     Inr ''div#main + span''"
proof -
  have a: "fst (chain cssSelectorBuilder [(Element, ''div''), (Id, ''main'')] init_heap) = Inr 2"
    by code_simp
  have b: "fst (element cssSelectorBuilder ''span''
     (snd (chain cssSelectorBuilder [(Element, ''div''), (Id, ''main'')] init_heap))) = Inr 3"
    by code_simp
  have l: "cssSelectorBuilder < length (objs div_main_span)" "2 < length (objs div_main_span)"
    "3 < length (objs div_main_span)"
    by code_simp+
  have t: "get_res 2 div_main_span = ''div#main''" "get_res 3 div_main_span = ''span''"
    by code_simp+
  from a b l t combine_text [OF l, of "''+''"] show ?thesis by simp
qed

text \<open>
  C5 as stated fails when both operands are the object \<open>builder.element('a')\<close>: the
  result renders as \<open>a + \<close>, not \<open>a + a\<close>.
\<close>

theorem combine_text_counterexample:
  "fst (stringify 1 one_element) = Inr ''a'' \<and>
   fst (stringify cssSelectorBuilder (snd (combine cssSelectorBuilder 1 ''+'' 1 one_element))) =
     Inr ''a + '' \<and>
   fst (stringify cssSelectorBuilder (snd (combine cssSelectorBuilder 1 ''+'' 1 one_element))) \<noteq>
     Inr ''a + a''"
  by code_simp

subsection \<open>C6: what \<open>combine\<close> returns and changes\<close>

text \<open>
  C6, as amended. \<open>combine\<close> returns its receiver: it allocates nothing, writes no
  flag, sets the receiver's text to the joined string and the text of each operand
  other than the receiver to the empty string, and leaves the text of every other
  object as it was.
\<close>

theorem combine_result:
  assumes "this < length (objs h)" "l < length (objs h)" "r < length (objs h)"
  shows "fst (combine this l c r h) = Inr this \<and>
         length (objs (snd (combine this l c r h))) = length (objs h) \<and>
         arrs (snd (combine this l c r h)) = arrs h \<and>
         (\<forall>a. flags (snd (combine this l c r h)) a = flags h a) \<and>
         (\<forall>a. get_res a (snd (combine this l c r h)) =
            (if a = this
             then get_res l h @ '' '' @ c @ '' '' @ (if r = l then '''' else get_res r h)
             else if a = l \<or> a = r then '''' else get_res a h))"
  using assms
  by (simp add: combine_put get_res_put_res length_objs_put_res arrs_put_res flags_put_res)

theorem combine_result_witness:
  "cssSelectorBuilder < length (objs two_elements) \<and> 1 < length (objs two_elements) \<and>
   2 < length (objs two_elements) \<and>
   fst (combine cssSelectorBuilder 1 ''+'' 2 two_elements) = Inr cssSelectorBuilder \<and>
   length (objs (snd (combine cssSelectorBuilder 1 ''+'' 2 two_elements))) = 3 \<and>
   get_res cssSelectorBuilder (snd (combine cssSelectorBuilder 1 ''+'' 2 two_elements)) = ''a + b'' \<and>
   get_res 1 (snd (combine cssSelectorBuilder 1 ''+'' 2 two_elements)) = '''' \<and>
   get_res 2 (snd (combine cssSelectorBuilder 1 ''+'' 2 two_elements)) = ''''"
proof -
  have l: "cssSelectorBuilder < length (objs two_elements)" "1 < length (objs two_elements)"
    "2 < length (objs two_elements)"
    by code_simp+
  have n: "length (objs two_elements) = 3" by code_simp
  have t: "get_res 1 two_elements = ''a''" "get_res 2 two_elements = ''b''"
    by code_simp+
  have z: "cssSelectorBuilder \<noteq> 1" "cssSelectorBuilder \<noteq> 2"
    by (simp_all add: cssSelectorBuilder_def)
  from l n t z combine_result [OF l, of "''+''"] show ?thesis by simp
qed

text \<open>
  C6 as stated fails on \<open>builder.combine(builder.element('a'), '+',
  builder.element('b'))\<close>: the result is the builder itself, whose text changes from
  empty to \<open>a + b\<close>, the text of the first operand changes from \<open>a\<close> to empty, and the
  store has no more objects than before.
\<close>

theorem combine_result_counterexample:
  "fst (combine cssSelectorBuilder 1 ''+'' 2 two_elements) = Inr cssSelectorBuilder \<and>
   get_res cssSelectorBuilder two_elements = '''' \<and>
   get_res cssSelectorBuilder (snd (combine cssSelectorBuilder 1 ''+'' 2 two_elements)) = ''a + b'' \<and>
   get_res 1 two_elements = ''a'' \<and>
   get_res 1 (snd (combine cssSelectorBuilder 1 ''+'' 2 two_elements)) = '''' \<and>
   length (objs (snd (combine cssSelectorBuilder 1 ''+'' 2 two_elements))) = length (objs two_elements)"
  by code_simp

subsection \<open>C7: a failed call changes nothing\<close>

text \<open>
  C7. When a part-appending call throws, the store is the one before the call: the
  receiver's text and its six flags are what they were, and the receiver is still a
  well-formed object, on which any further call does what it would have done before.
\<close>

theorem failed_call_no_effect:
  assumes "ok h this" and "fst (call k this v h) = Inl e"
  shows "snd (call k this v h) = h \<and>
         get_res this (snd (call k this v h)) = get_res this h \<and>
         flags (snd (call k this v h)) this = flags h this \<and>
         ok (snd (call k this v h)) this"
proof -
  from call_eq [OF assms(1), of k v] assms(2) have "snd (call k this v h) = h"
    by (auto split: if_splits)
  with assms(1) show ?thesis by simp
qed

theorem failed_call_no_effect_witness:
  "ok one_class 1 \<and> fst (call Id 1 ''x'' one_class) = Inl OrderingError \<and>
   snd (call Id 1 ''x'' one_class) = one_class"
proof -
  have a: "ok one_class 1" by code_simp
  have b: "fst (call Id 1 ''x'' one_class) = Inl OrderingError" by code_simp
  from a b failed_call_no_effect [OF a b] show ?thesis by simp
qed

subsection \<open>C8: sibling states do not interfere\<close>

text \<open>
  C8. Let \<open>A = S.class(x)\<close> and then \<open>B = S.class(y)\<close> be derived from one state \<open>S\<close>
  (the first derivation succeeding, which depends on the flags of \<open>S\<close> alone). Then the
  second derivation succeeds too, \<open>A\<close>, \<open>B\<close> and \<open>S\<close> are three objects, \<open>A\<close> renders
  as the text of \<open>S\<close> followed by \<open>.x\<close> and \<open>B\<close> as the text of \<open>S\<close> followed by \<open>.y\<close>,
  and each renders so whether or not the other has been rendered before.
\<close>

theorem siblings_independent:
  assumes "ok h S" and "fst (class_sel S x h) = Inr A"
  shows "\<exists>B h2. class_sel S y (snd (class_sel S x h)) = (Inr B, h2) \<and>
           A \<noteq> B \<and> A \<noteq> S \<and> B \<noteq> S \<and>
           fst (stringify A h2) = Inr (get_res S h @ ''.'' @ x) \<and>
           fst (stringify B h2) = Inr (get_res S h @ ''.'' @ y) \<and>
           fst (stringify B (snd (stringify A h2))) = Inr (get_res S h @ ''.'' @ y) \<and>
           fst (stringify A (snd (stringify B h2))) = Inr (get_res S h @ ''.'' @ x)"
proof -
  let ?n = "length (objs h)"
  let ?h1 = "extend h S Class x"
  let ?h2 = "extend ?h1 S Class y"
  from assms(1) have S: "S < ?n" by (simp add: ok_def)
  from assms have free: "\<not> (\<exists>j. rank Class < j \<and> j < 6 \<and> flags h S ! j)"
    and first: "class_sel S x h = (Inr ?n, ?h1)" and A: "A = ?n"
    using call_eq [OF assms(1), of Class x] by (auto split: if_splits)
  have ok1: "ok ?h1 S" using assms(1) by (rule ok_extend_old)
  have "flags ?h1 S = flags h S" using assms(1) by (rule flags_extend_old)
  with free have second: "class_sel S y ?h1 = (Inr (Suc ?n), ?h2)"
    using call_eq [OF ok1, of Class y] by (simp add: length_objs_extend)
  have len2: "length (objs ?h2) = Suc (Suc ?n)" by (simp add: length_objs_extend)
  have tA: "get_res ?n ?h2 = get_res S h @ ''.'' @ x"
    by (simp add: get_res_extend_old length_objs_extend get_res_extend_new)
  have "get_res (Suc ?n) ?h2 = get_res S ?h1 @ ''.'' @ y"
    using get_res_extend_new [of ?h1 S Class y] by (simp add: length_objs_extend)
  with S have tB: "get_res (Suc ?n) ?h2 = get_res S h @ ''.'' @ y"
    by (simp add: get_res_extend_old)
  from S tA tB len2 show ?thesis
    by (simp add: first second A stringify_put get_res_put_res)
qed

theorem siblings_independent_witness:
  "ok one_element 1 \<and> fst (class_sel 1 ''x'' one_element) = Inr 2 \<and>
   (\<exists>B h2. class_sel 1 ''y'' (snd (class_sel 1 ''x'' one_element)) = (Inr B, h2) \<and>
      fst (stringify 2 h2) = Inr ''a.x'' \<and> fst (stringify B h2) = Inr ''a.y'' \<and>
      fst (stringify B (snd (stringify 2 h2))) = Inr ''a.y'' \<and>
      fst (stringify 2 (snd (stringify B h2))) = Inr ''a.x'')"
proof -
  have a: "ok one_element 1" by code_simp
  have b: "fst (class_sel 1 ''x'' one_element) = Inr 2" by code_simp
  have t: "get_res 1 one_element = ''a''" by code_simp
  from siblings_independent [OF a b, of "''y''"] a b t show ?thesis by auto
qed

subsection \<open>C9: the operands of \<open>combine\<close> afterwards\<close>

text \<open>
  C9, as amended. After \<open>combine\<close> returns, each operand other than the receiver has
  the empty text, and \<open>stringify\<close> on it returns the empty string; an operand that is
  the receiver holds the joined text.
\<close>

theorem combine_resets_operands:
  assumes "this < length (objs h)" "l < length (objs h)" "r < length (objs h)"
    and "a = l \<or> a = r"
  shows "(a \<noteq> this \<longrightarrow>
            get_res a (snd (combine this l c r h)) = '''' \<and>
            fst (stringify a (snd (combine this l c r h))) = Inr '''') \<and>
         (a = this \<longrightarrow>
            fst (stringify a (snd (combine this l c r h))) =
              Inr (get_res l h @ '' '' @ c @ '' '' @ (if r = l then '''' else get_res r h)))"
  using assms
  by (auto simp: combine_put stringify_put get_res_put_res length_objs_put_res)

theorem combine_resets_operands_witness:
  "cssSelectorBuilder < length (objs two_elements) \<and> 1 < length (objs two_elements) \<and>
   2 < length (objs two_elements) \<and>
   fst (stringify 1 (snd (combine cssSelectorBuilder 1 ''>'' 2 two_elements))) = Inr '''' \<and>
   fst (stringify 2 (snd (combine cssSelectorBuilder 1 ''>'' 2 two_elements))) = Inr ''''"
proof -
  have l: "cssSelectorBuilder < length (objs two_elements)" "1 < length (objs two_elements)"
    "2 < length (objs two_elements)"
    by code_simp+
  have z: "1 \<noteq> cssSelectorBuilder" "2 \<noteq> cssSelectorBuilder"
    by (simp_all add: cssSelectorBuilder_def)
  from l z combine_resets_operands [OF l, of 1 "''>''"]
    combine_resets_operands [OF l, of 2 "''>''"]
  show ?thesis by simp
qed

text \<open>
  C9 as stated fails on the nested call of the source's documentation comment: the
  right operand of the outer call is the builder, which the inner call returned, and
  after the outer call it holds \<open>a + b ~ c\<close>.
\<close>

theorem combine_resets_operands_counterexample:
  "fst (combine cssSelectorBuilder 2 ''~'' 3 three_elements) = Inr cssSelectorBuilder \<and>
   get_res cssSelectorBuilder inner_combined = ''b ~ c'' \<and>
   fst (combine cssSelectorBuilder 1 ''+'' cssSelectorBuilder inner_combined) =
     Inr cssSelectorBuilder \<and>
   get_res cssSelectorBuilder
     (snd (combine cssSelectorBuilder 1 ''+'' cssSelectorBuilder inner_combined)) = ''a + b ~ c'' \<and>
   fst (stringify cssSelectorBuilder
     (snd (combine cssSelectorBuilder 1 ''+'' cssSelectorBuilder inner_combined))) \<noteq> Inr ''''"
  by code_simp

subsection \<open>C10: a combination can be extended\<close>

text \<open>
  C10. In every store reachable through the public methods, \<open>combine\<close> called on the
  builder returns the builder, whose six flags are all false, so that each of the six
  part-appending calls on the result succeeds and yields an object whose text is the
  combined text followed by the call's fragment.
\<close>

theorem combined_state_extendable:
  assumes "reachable h" "l < length (objs h)" "r < length (objs h)"
  shows "fst (combine cssSelectorBuilder l c r h) = Inr cssSelectorBuilder \<and>
         flags (snd (combine cssSelectorBuilder l c r h)) cssSelectorBuilder = replicate 6 False \<and>
         (\<forall>k v. \<exists>a h'.
            call k cssSelectorBuilder v (snd (combine cssSelectorBuilder l c r h)) = (Inr a, h') \<and>
            get_res a h' =
              get_res cssSelectorBuilder (snd (combine cssSelectorBuilder l c r h)) @
              spec_fragment (k, v))"
proof -
  let ?h = "snd (combine cssSelectorBuilder l c r h)"
  from assms(1) have wf: "wf_heap h" by (rule reachable_wf)
  then have b: "cssSelectorBuilder < length (objs h)"
    by (simp add: wf_heap_def cssSelectorBuilder_def)
  from wf b assms(2,3) have wf': "wf_heap ?h"
    by (simp add: combine_put wf_put_res length_objs_put_res)
  then have ok: "ok ?h cssSelectorBuilder" and f: "flags ?h cssSelectorBuilder = replicate 6 False"
    by (simp_all add: wf_heap_def cssSelectorBuilder_def)
  have "\<exists>a h'. call k cssSelectorBuilder v ?h = (Inr a, h') \<and>
          get_res a h' = get_res cssSelectorBuilder ?h @ spec_fragment (k, v)" for k v
    using call_eq [OF ok, of k v] rank_less_6 [of k]
    by (simp add: f get_res_extend_new)
  with f show ?thesis by (simp add: combine_put)
qed

theorem combined_state_extendable_witness:
  "reachable two_elements \<and> 1 < length (objs two_elements) \<and> 2 < length (objs two_elements) \<and>
   flags (snd (combine cssSelectorBuilder 1 ''>'' 2 two_elements)) cssSelectorBuilder =
     replicate 6 False \<and>
   (\<exists>a h'. call Element cssSelectorBuilder ''p''
        (snd (combine cssSelectorBuilder 1 ''>'' 2 two_elements)) = (Inr a, h') \<and>
      get_res a h' = ''a > bp'')"
proof -
  have "reachable (snd (call Element cssSelectorBuilder ''a'' init_heap))"
    by (rule r_call [OF r_init]) (simp add: init_heap_def cssSelectorBuilder_def)
  then have r1: "reachable one_element" by (simp add: one_element_def)
  have "cssSelectorBuilder < length (objs one_element)" by code_simp
  with r1 have "reachable (snd (call Element cssSelectorBuilder ''b'' one_element))"
    by (rule r_call)
  then have r: "reachable two_elements" by (simp add: two_elements_def)
  have l: "1 < length (objs two_elements)" "2 < length (objs two_elements)"
    by code_simp+
  have t: "get_res cssSelectorBuilder (snd (combine cssSelectorBuilder 1 ''>'' 2 two_elements)) =
      ''a > b''"
    by code_simp
  let ?h = "snd (combine cssSelectorBuilder 1 ''>'' 2 two_elements)"
  note c = combined_state_extendable [OF r l, of "''>''"]
  from c have f: "flags ?h cssSelectorBuilder = replicate 6 False"
    by blast
  from c obtain a h' where "call Element cssSelectorBuilder ''p'' ?h = (Inr a, h')"
    and "get_res a h' = get_res cssSelectorBuilder ?h @ spec_fragment (Element, ''p'')"
    by blast
  with t have "\<exists>a h'. call Element cssSelectorBuilder ''p'' ?h = (Inr a, h') \<and>
      get_res a h' = ''a > bp''"
    by simp
  with r l f show ?thesis by blast
qed

end
